theory Spec2Isabelle
  imports Main "HOL-Library.Sublist"
begin

section \<open>The same-scope crawler of \<open>src/rawdata/main.py\<close>\<close>

text \<open>
  Python strings are modelled as \<open>string\<close>: the bytes of their UTF-8 encoding, which is
  what the crawler writes to its output file.  Every delimiter the crawler looks at
  (\<open>#\<close>, \<open>?\<close>, \<open>/\<close>, the quotes, \<open>href=\<close>) is ASCII, so splitting on it gives the
  same pieces on the bytes as on the code points.

  An exception is the value of its message.  The exceptions of the model are those that
  \<open>except Exception\<close> catches; an interrupt of the process (\<open>KeyboardInterrupt\<close>, a
  cancelled task) is not one of them.  \<open>print\<close> is taken not to raise.
\<close>

type_synonym exn = string

subsection \<open>The library the crawler imports\<close>

text \<open>
  \<open>urlparse\<close> and \<open>urljoin\<close> come from Python's \<open>urllib.parse\<close>, not from the
  repository.  The crawler is modelled over any pair of such functions; both may raise
  (\<open>ValueError\<close>), which is the \<open>Inl\<close> branch.  Of the six components of a parse
  result the crawler reads \<open>scheme\<close>, \<open>netloc\<close> and \<open>path\<close>.
\<close>

record parse_result =
  scheme :: string
  netloc :: string
  path :: string
  params :: string
  query :: string
  fragment :: string

record urllib =
  urlparse :: "string \<Rightarrow> exn + parse_result"
  urljoin :: "string \<Rightarrow> string \<Rightarrow> exn + string"

subsection \<open>\<open>same_topic\<close>\<close>

text \<open>\<open>s.rstrip("/")\<close>: every trailing slash is removed.\<close>

definition rstrip_slash :: "string \<Rightarrow> string" where
  "rstrip_slash s = rev (dropWhile (\<lambda>c. c = CHR ''/'') (rev s))"

text \<open>\<open>s.startswith(p)\<close>.\<close>

definition startswith :: "string \<Rightarrow> string \<Rightarrow> bool" where
  "startswith s p = (take (length p) s = p)"

definition same_topic :: "urllib \<Rightarrow> string \<Rightarrow> string \<Rightarrow> exn + bool" where
  "same_topic L base_url candidate =
     (case urlparse L base_url of
        Inl e \<Rightarrow> Inl e
      | Inr base \<Rightarrow>
         (case urlparse L candidate of
            Inl e \<Rightarrow> Inl e
          | Inr cand \<Rightarrow>
              if scheme cand \<notin> {''http'', ''https''} then Inr False
              else if netloc cand \<noteq> netloc base then Inr False
              else
                let base_path = rstrip_slash (path base);
                    cand_path = rstrip_slash (path cand)
                in if \<not> startswith cand_path base_path then Inr False else Inr True))"

subsection \<open>Link extraction\<close>

text \<open>
  \<open>re.findall(r'href=["\'](.*?)["\']', html, flags=re.I)\<close>.  A match starts where
  \<open>href=\<close> (in any letter case) is followed by a single or double quote; the lazy group
  then runs to the next quote of either kind, and since \<open>.\<close> does not match a newline
  there is no match when a newline comes first.  \<open>findall\<close> resumes after each match.
\<close>

definition dquote :: char where "dquote = CHR 0x22"
definition squote :: char where "squote = CHR 0x27"
definition newline :: char where "newline = CHR 0x0A"

definition is_quote :: "char \<Rightarrow> bool" where
  "is_quote c = (c = dquote \<or> c = squote)"

fun match_href :: "string \<Rightarrow> (string \<times> string) option" where
  "match_href (h # r # e # f # eq # qt # cs) =
     (if (h = CHR ''h'' \<or> h = CHR ''H'') \<and> (r = CHR ''r'' \<or> r = CHR ''R'')
         \<and> (e = CHR ''e'' \<or> e = CHR ''E'') \<and> (f = CHR ''f'' \<or> f = CHR ''F'')
         \<and> eq = CHR ''='' \<and> is_quote qt
      then (case dropWhile (\<lambda>c. \<not> is_quote c \<and> c \<noteq> newline) cs of
              [] \<Rightarrow> None
            | c # rest \<Rightarrow>
                if is_quote c
                then Some (takeWhile (\<lambda>c. \<not> is_quote c \<and> c \<noteq> newline) cs, rest)
                else None)
      else None)"
| "match_href _ = None"

lemma match_href_shorter: "match_href s = Some (g, rest) \<Longrightarrow> length rest < length s"
proof (induction s rule: match_href.induct)
  case (1 h r e f eq qt cs)
  let ?P = "\<lambda>c. \<not> is_quote c \<and> c \<noteq> newline"
  from 1 obtain c where d: "dropWhile ?P cs = c # rest"
    by (auto split: if_splits list.splits)
  have "length (dropWhile ?P cs) \<le> length cs"
    by (rule length_dropWhile_le)
  with d show ?case by simp
qed simp_all

function findall_href :: "string \<Rightarrow> string list" where
  "findall_href [] = []"
| "findall_href (c # cs) =
     (case match_href (c # cs) of
        Some (g, rest) \<Rightarrow> g # findall_href rest
      | None \<Rightarrow> findall_href cs)"
  by pat_completeness auto
termination
  by (relation "measure length") (auto dest: match_href_shorter)

subsection \<open>The crawl\<close>

text \<open>
  What \<open>crawler.arun\<close> gives back: it raises, or it returns a result of which the
  crawler reads \<open>success\<close>, \<open>html\<close> and \<open>error_message\<close>.
\<close>

record crawl_result =
  success :: bool
  html :: string
  error_message :: string

datatype arun_outcome = Raises exn | Returns crawl_result

text \<open>
  The \<open>with open(output_path, "ab")\<close> block appends the header and the page.  Either all
  of it reaches the file, or an exception is raised after some of the bytes were written.
\<close>

datatype write_outcome = Written | WriteFails nat exn

text \<open>
  The outside world: the fetcher and the file system, each a function of a world state
  that it may change.
\<close>

record 'w env =
  arun :: "'w \<Rightarrow> string \<Rightarrow> arun_outcome \<times> 'w"
  append_page :: "'w \<Rightarrow> string \<Rightarrow> write_outcome \<times> 'w"
  truncate_file :: "'w \<Rightarrow> exn option \<times> 'w"

text \<open>The lines the crawler prints, and what it does to the outside, in order.\<close>

datatype diag = SKIP string string | OK string nat | ERROR string exn

datatype event =
    Truncate
  | Fetch string arun_outcome
  | Append string
  | Print diag

record 'w crawl_state =
  seen :: "string set"
  to_visit :: "string list"
  world :: 'w
  trace :: "event list"

text \<open>\<open>s.split(d)[0]\<close>: what comes before the first \<open>d\<close>.\<close>

definition split_first :: "char \<Rightarrow> string \<Rightarrow> string" where
  "split_first d s = takeWhile (\<lambda>c. c \<noteq> d) s"

text \<open>
  \<open>absolute = urljoin(url, raw_link.split("#")[0])\<close> and then
  \<open>absolute = absolute.split("?")[0]\<close>.
\<close>

definition normalize_link :: "urllib \<Rightarrow> string \<Rightarrow> string \<Rightarrow> exn + string" where
  "normalize_link L url raw_link =
     (case urljoin L url (split_first (CHR ''#'') raw_link) of
        Inl e \<Rightarrow> Inl e
      | Inr absolute \<Rightarrow> Inr (split_first (CHR ''?'') absolute))"

text \<open>
  The \<open>for raw_link in links\<close> loop.  It reads \<open>seen\<close> and appends to \<open>to_visit\<close>;
  \<open>same_topic\<close> is only called when \<open>absolute not in seen\<close>.  An exception leaves the
  loop with the queue as it is at that point.
\<close>

fun enqueue_links ::
  "urllib \<Rightarrow> string \<Rightarrow> string \<Rightarrow> string set \<Rightarrow> string list \<Rightarrow> string list
     \<Rightarrow> exn option \<times> string list" where
  "enqueue_links L start_url url sn [] q = (None, q)"
| "enqueue_links L start_url url sn (raw_link # links) q =
     (case normalize_link L url raw_link of
        Inl e \<Rightarrow> (Some e, q)
      | Inr absolute \<Rightarrow>
          if absolute \<notin> sn then
            (case same_topic L start_url absolute of
               Inl e \<Rightarrow> (Some e, q)
             | Inr ok \<Rightarrow>
                 enqueue_links L start_url url sn links (if ok then q @ [absolute] else q))
          else enqueue_links L start_url url sn links q)"

definition header :: "string \<Rightarrow> string" where
  "header url = [newline, newline] @ ''<!-- URL: '' @ url @ '' -->'' @ [newline, newline]"

text \<open>
  The body of the \<open>try\<close>: the state at the point where the body ends, and the exception
  if it ended by one.
\<close>

definition try_body ::
  "urllib \<Rightarrow> 'w env \<Rightarrow> string \<Rightarrow> string \<Rightarrow> 'w crawl_state \<Rightarrow> exn option \<times> 'w crawl_state" where
  "try_body L E start_url url s =
     (case arun E (world s) url of
        (Raises e, w) \<Rightarrow>
          (Some e, s\<lparr>world := w, trace := trace s @ [Fetch url (Raises e)]\<rparr>)
      | (Returns result, w) \<Rightarrow>
          let s1 = s\<lparr>world := w, trace := trace s @ [Fetch url (Returns result)]\<rparr> in
          if \<not> success result then
            (None, s1\<lparr>trace := trace s1 @ [Print (SKIP url (error_message result))]\<rparr>)
          else
            let s2 = s1\<lparr>trace := trace s1 @ [Print (OK url (length (html result)))]\<rparr>;
                data = header url @ html result
            in (case append_page E (world s2) data of
                  (WriteFails k e, w') \<Rightarrow>
                    (Some e, s2\<lparr>world := w', trace := trace s2 @ [Append (take k data)]\<rparr>)
                | (Written, w') \<Rightarrow>
                    let s3 = s2\<lparr>world := w', trace := trace s2 @ [Append data]\<rparr>;
                        links = findall_href (html result)
                    in (case enqueue_links L start_url url (seen s3) links (to_visit s3) of
                          (r, q) \<Rightarrow> (r, s3\<lparr>to_visit := q\<rparr>))))"

text \<open>
  One iteration of \<open>while to_visit\<close>: pop the head, skip it if seen, else mark it seen
  and run the \<open>try\<close>; \<open>except Exception\<close> prints and goes on.
\<close>

definition step :: "urllib \<Rightarrow> 'w env \<Rightarrow> string \<Rightarrow> 'w crawl_state \<Rightarrow> 'w crawl_state" where
  "step L E start_url s =
     (case to_visit s of
        [] \<Rightarrow> s
      | url # rest \<Rightarrow>
          let s0 = s\<lparr>to_visit := rest\<rparr> in
          if url \<in> seen s0 then s0
          else
            let s1 = s0\<lparr>seen := insert url (seen s0)\<rparr> in
            (case try_body L E start_url url s1 of
               (None, s2) \<Rightarrow> s2
             | (Some e, s2) \<Rightarrow> s2\<lparr>trace := trace s2 @ [Print (ERROR url e)]\<rparr>))"

partial_function (option) crawl_loop ::
  "urllib \<Rightarrow> 'w env \<Rightarrow> string \<Rightarrow> 'w crawl_state \<Rightarrow> 'w crawl_state option" where
  "crawl_loop L E start_url s =
     (if to_visit s = [] then Some s
      else crawl_loop L E start_url (step L E start_url s))"

text \<open>The state when the loop is entered: the file has been truncated.\<close>

definition initial :: "string \<Rightarrow> 'w \<Rightarrow> 'w crawl_state" where
  "initial start_url w = \<lparr>seen = {}, to_visit = [start_url], world = w, trace = [Truncate]\<rparr>"

text \<open>
  \<open>crawl_single_site\<close>: \<open>None\<close> when the loop never ends, \<open>Inl\<close> when truncating the
  file raises (that is outside the \<open>try\<close>).  Opening and closing the \<open>AsyncWebCrawler\<close>
  around the loop belongs to the fetcher and is not modelled.
\<close>

definition crawl_single_site ::
  "urllib \<Rightarrow> 'w env \<Rightarrow> string \<Rightarrow> 'w \<Rightarrow> (exn + 'w crawl_state) option" where
  "crawl_single_site L E start_url w =
     (case truncate_file E w of
        (Some e, w') \<Rightarrow> Some (Inl e)
      | (None, w') \<Rightarrow> map_option Inr (crawl_loop L E start_url (initial start_url w')))"

text \<open>The state after \<open>n\<close> iterations of the loop (an empty queue stays as it is).\<close>

definition after :: "urllib \<Rightarrow> 'w env \<Rightarrow> string \<Rightarrow> 'w \<Rightarrow> nat \<Rightarrow> 'w crawl_state" where
  "after L E start_url w n = (step L E start_url ^^ n) (initial start_url w)"

text \<open>Reading a trace: the URLs given to the fetcher, and the content of the file.\<close>

fun fetched :: "event list \<Rightarrow> string list" where
  "fetched [] = []"
| "fetched (Fetch u r # tr) = u # fetched tr"
| "fetched (_ # tr) = fetched tr"

fun file_after :: "string \<Rightarrow> event list \<Rightarrow> string" where
  "file_after f [] = f"
| "file_after f (Truncate # tr) = file_after [] tr"
| "file_after f (Append b # tr) = file_after (f @ b) tr"
| "file_after f (_ # tr) = file_after f tr"

subsection \<open>Reading a run\<close>



text \<open>
  The links of a page after normalisation against the page's URL, in document order (a
  link whose normalisation raises has none), and those of the page that \<open>arun\<close> returns
  for a URL.
\<close>

fun resolved_links :: "urllib \<Rightarrow> string \<Rightarrow> string list \<Rightarrow> string list" where
  "resolved_links L url [] = []"
| "resolved_links L url (raw_link # links) =
     (case normalize_link L url raw_link of
        Inl e \<Rightarrow> resolved_links L url links
      | Inr absolute \<Rightarrow> absolute # resolved_links L url links)"

definition page_links :: "urllib \<Rightarrow> 'w env \<Rightarrow> 'w \<Rightarrow> string \<Rightarrow> string list" where
  "page_links L E w url =
     (case arun E w url of
        (Returns res, w') \<Rightarrow>
          if success res then resolved_links L url (findall_href (html res)) else []
      | (Raises e, w') \<Rightarrow> [])"

text \<open>
  A finite link graph: a set of URLs that no in-scope link of any of its pages leaves,
  whatever state the world is in when the page is fetched.
\<close>

definition link_closed :: "urllib \<Rightarrow> 'w env \<Rightarrow> string \<Rightarrow> string set \<Rightarrow> bool" where
  "link_closed L E start_url U =
     (\<forall>w. \<forall>u \<in> U. \<forall>a \<in> set (page_links L E w u).
         same_topic L start_url a = Inr True \<longrightarrow> a \<in> U)"


text \<open>Everything in the queue or fetched is the seed or in scope.\<close>

definition scope_inv :: "urllib \<Rightarrow> string \<Rightarrow> 'w crawl_state \<Rightarrow> bool" where
  "scope_inv L start_url s =
     (\<forall>u \<in> set (to_visit s) \<union> set (fetched (trace s)).
         u = start_url \<or> same_topic L start_url u = Inr True)"


text \<open>
  What one link does in the \<open>for\<close> loop: the exception it raises, if any, and whether
  its normal form is appended to the queue.
\<close>

definition link_raises :: "urllib \<Rightarrow> string \<Rightarrow> string \<Rightarrow> string set \<Rightarrow> string \<Rightarrow> exn option" where
  "link_raises L start_url url sn raw_link =
     (case normalize_link L url raw_link of
        Inl e \<Rightarrow> Some e
      | Inr absolute \<Rightarrow>
          if absolute \<notin> sn
          then (case same_topic L start_url absolute of Inl e \<Rightarrow> Some e | Inr ok \<Rightarrow> None)
          else None)"

definition wanted :: "urllib \<Rightarrow> string \<Rightarrow> string set \<Rightarrow> string \<Rightarrow> bool" where
  "wanted L start_url sn absolute = (absolute \<notin> sn \<and> same_topic L start_url absolute = Inr True)"

subsection \<open>Python's \<open>urllib.parse\<close>\<close>

text \<open>
  The functions the crawler imports, after CPython 3.11 (\<open>Lib/urllib/parse.py\<close>):
  \<open>urlsplit\<close>, \<open>urlparse\<close>, \<open>urlunsplit\<close>, \<open>urlunparse\<close> and \<open>urljoin\<close>, on
  \<open>str\<close> arguments and with \<open>allow_fragments=True\<close>.  Two checks of \<open>urlsplit\<close>
  call other modules and are parameters here: the validation of a host in brackets
  (\<open>ipaddress\<close>) and the NFKC check of a netloc that is not ASCII (\<open>unicodedata\<close>); each
  gives the exception it raises, if any.  The general theorems below hold for any library;
  this one is what the concrete runs are evaluated with.
\<close>

definition uses_relative :: "string list" where
  "uses_relative = ['''', ''ftp'', ''http'', ''gopher'', ''nntp'', ''imap'',
     ''wais'', ''file'', ''https'', ''shttp'', ''mms'',
     ''prospero'', ''rtsp'', ''rtsps'', ''rtspu'', ''sftp'',
     ''svn'', ''svn+ssh'', ''ws'', ''wss'']"

definition uses_netloc :: "string list" where
  "uses_netloc = ['''', ''ftp'', ''http'', ''gopher'', ''nntp'', ''telnet'',
     ''imap'', ''wais'', ''file'', ''mms'', ''https'', ''shttp'',
     ''snews'', ''prospero'', ''rtsp'', ''rtsps'', ''rtspu'', ''rsync'',
     ''svn'', ''svn+ssh'', ''sftp'', ''nfs'', ''git'', ''git+ssh'',
     ''ws'', ''wss'']"

definition uses_params :: "string list" where
  "uses_params = ['''', ''ftp'', ''hdl'', ''prospero'', ''http'', ''imap'',
     ''https'', ''shttp'', ''rtsp'', ''rtsps'', ''rtspu'', ''sip'',
     ''sips'', ''mms'', ''sftp'', ''tel'']"

definition c0_or_space :: "char \<Rightarrow> bool" where
  "c0_or_space c = ((of_char c :: nat) \<le> 32)"

definition unsafe_byte :: "char \<Rightarrow> bool" where
  "unsafe_byte c = (c = CHR 0x09 \<or> c = CHR 0x0D \<or> c = CHR 0x0A)"

definition ascii_upper :: "char \<Rightarrow> bool" where
  "ascii_upper c = (65 \<le> (of_char c :: nat) \<and> (of_char c :: nat) \<le> 90)"

definition ascii_lower :: "char \<Rightarrow> bool" where
  "ascii_lower c = (97 \<le> (of_char c :: nat) \<and> (of_char c :: nat) \<le> 122)"

definition ascii_digit :: "char \<Rightarrow> bool" where
  "ascii_digit c = (48 \<le> (of_char c :: nat) \<and> (of_char c :: nat) \<le> 57)"

definition scheme_char :: "char \<Rightarrow> bool" where
  "scheme_char c =
     (ascii_lower c \<or> ascii_upper c \<or> ascii_digit c
      \<or> c = CHR ''+'' \<or> c = CHR ''-'' \<or> c = CHR ''.'')"

definition lower :: "char \<Rightarrow> char" where
  "lower c = (if ascii_upper c then char_of ((of_char c :: nat) + 32) else c)"

definition strip_c0 :: "string \<Rightarrow> string" where
  "strip_c0 s = rev (dropWhile c0_or_space (rev (dropWhile c0_or_space s)))"

text \<open>\<open>s.split(d, 1)\<close> for an \<open>s\<close> that contains \<open>d\<close>.\<close>

definition split_once :: "char \<Rightarrow> string \<Rightarrow> string \<times> string" where
  "split_once d s = (takeWhile (\<lambda>c. c \<noteq> d) s, drop 1 (dropWhile (\<lambda>c. c \<noteq> d) s))"

record validators =
  bracketed_host_error :: "string \<Rightarrow> exn option"
  nfkc_error :: "string \<Rightarrow> exn option"

definition checknetloc :: "validators \<Rightarrow> string \<Rightarrow> exn option" where
  "checknetloc V nl =
     (if nl = [] \<or> list_all (\<lambda>c. (of_char c :: nat) < 128) nl then None
      else nfkc_error V nl)"

definition netloc_delim :: "char \<Rightarrow> bool" where
  "netloc_delim c = (c = CHR ''/'' \<or> c = CHR ''?'' \<or> c = CHR ''#'')"

definition py_urlsplit :: "validators \<Rightarrow> string \<Rightarrow> string \<Rightarrow> exn + parse_result" where
  "py_urlsplit V url0 scheme0 =
     (let url1 = filter (\<lambda>c. \<not> unsafe_byte c) (dropWhile c0_or_space url0);
          scheme1 = filter (\<lambda>c. \<not> unsafe_byte c) (strip_c0 scheme0);
          pre = takeWhile (\<lambda>c. c \<noteq> CHR '':'') url1;
          found = (CHR '':'' \<in> set url1 \<and> pre \<noteq> [] \<and>
                   (ascii_lower (hd pre) \<or> ascii_upper (hd pre)) \<and> list_all scheme_char pre);
          sch = (if found then map lower pre else scheme1);
          url2 = (if found then drop (length pre + 1) url1 else url1);
          has_netloc = (take 2 url2 = ''//'');
          nl = (if has_netloc then takeWhile (\<lambda>c. \<not> netloc_delim c) (drop 2 url2) else []);
          url3 = (if has_netloc then dropWhile (\<lambda>c. \<not> netloc_delim c) (drop 2 url2) else url2);
          lb = (CHR ''['' \<in> set nl);
          rb = (CHR '']'' \<in> set nl)
      in
        if has_netloc \<and> ((lb \<and> \<not> rb) \<or> (rb \<and> \<not> lb)) then Inl ''Invalid IPv6 URL''
        else
          (case (if has_netloc \<and> lb \<and> rb
                 then bracketed_host_error V
                        (takeWhile (\<lambda>c. c \<noteq> CHR '']'')
                           (drop 1 (dropWhile (\<lambda>c. c \<noteq> CHR ''['') nl)))
                 else None) of
             Some e \<Rightarrow> Inl e
           | None \<Rightarrow>
               let (url4, frag) = (if CHR ''#'' \<in> set url3 then split_once (CHR ''#'') url3
                                   else (url3, []));
                   (url5, qry) = (if CHR ''?'' \<in> set url4 then split_once (CHR ''?'') url4
                                  else (url4, []))
               in (case checknetloc V nl of
                     Some e \<Rightarrow> Inl e
                   | None \<Rightarrow>
                       Inr \<lparr>scheme = sch, netloc = nl, path = url5, params = [],
                            query = qry, fragment = frag\<rparr>)))"

definition splitparams :: "string \<Rightarrow> string \<times> string" where
  "splitparams url =
     (let dir = rev (dropWhile (\<lambda>c. c \<noteq> CHR ''/'') (rev url));
          seg = drop (length dir) url
      in if CHR '';'' \<in> set seg
         then (dir @ takeWhile (\<lambda>c. c \<noteq> CHR '';'') seg,
               drop 1 (dropWhile (\<lambda>c. c \<noteq> CHR '';'') seg))
         else (url, []))"

definition py_urlparse :: "validators \<Rightarrow> string \<Rightarrow> string \<Rightarrow> exn + parse_result" where
  "py_urlparse V url sch =
     (case py_urlsplit V url sch of
        Inl e \<Rightarrow> Inl e
      | Inr r \<Rightarrow>
          if scheme r \<in> set uses_params \<and> CHR '';'' \<in> set (path r)
          then (case splitparams (path r) of (p, ps) \<Rightarrow> Inr (r\<lparr>path := p, params := ps\<rparr>))
          else Inr r)"

definition py_urlunsplit :: "string \<Rightarrow> string \<Rightarrow> string \<Rightarrow> string \<Rightarrow> string \<Rightarrow> string" where
  "py_urlunsplit sch nl url qry frag =
     (let url1 = (if nl \<noteq> [] \<or> (sch \<noteq> [] \<and> sch \<in> set uses_netloc) \<or> take 2 url = ''//''
                  then ''//'' @ nl @ (if url \<noteq> [] \<and> take 1 url \<noteq> ''/'' then ''/'' @ url else url)
                  else url);
          url2 = (if sch \<noteq> [] then sch @ '':'' @ url1 else url1);
          url3 = (if qry \<noteq> [] then url2 @ ''?'' @ qry else url2)
      in if frag \<noteq> [] then url3 @ ''#'' @ frag else url3)"

definition py_urlunparse :: "parse_result \<Rightarrow> string" where
  "py_urlunparse r =
     py_urlunsplit (scheme r) (netloc r)
       (if params r \<noteq> [] then path r @ '';'' @ params r else path r) (query r) (fragment r)"

text \<open>\<open>s.split("/")\<close> and \<open>"/".join(xs)\<close>.\<close>

fun split_slash :: "string \<Rightarrow> string list" where
  "split_slash [] = [[]]"
| "split_slash (c # cs) =
     (if c = CHR ''/'' then [] # split_slash cs
      else (case split_slash cs of [] \<Rightarrow> [[c]] | x # xs \<Rightarrow> (c # x) # xs))"

fun join_slash :: "string list \<Rightarrow> string" where
  "join_slash [] = []"
| "join_slash [x] = x"
| "join_slash (x # y # ys) = x @ ''/'' @ join_slash (y # ys)"

text \<open>The loop over the segments: \<open>..\<close> pops (if it can), \<open>.\<close> is dropped.\<close>

fun resolve_segments :: "string list \<Rightarrow> string list \<Rightarrow> string list" where
  "resolve_segments acc [] = acc"
| "resolve_segments acc (seg # segs) =
     (if seg = ''..'' then resolve_segments (butlast acc) segs
      else if seg = ''.'' then resolve_segments acc segs
      else resolve_segments (acc @ [seg]) segs)"

text \<open>\<open>segments[1:-1] = filter(None, segments[1:-1])\<close>.\<close>

fun filter_middle :: "string list \<Rightarrow> string list" where
  "filter_middle [] = []"
| "filter_middle [x] = [x]"
| "filter_middle (x # xs) = x # filter (\<lambda>y. y \<noteq> []) (butlast xs) @ [last xs]"

definition py_urljoin :: "validators \<Rightarrow> string \<Rightarrow> string \<Rightarrow> exn + string" where
  "py_urljoin V base url =
     (if base = [] then Inr url
      else if url = [] then Inr base
      else
        (case py_urlparse V base [] of
           Inl e \<Rightarrow> Inl e
         | Inr b \<Rightarrow>
            (case py_urlparse V url (scheme b) of
               Inl e \<Rightarrow> Inl e
             | Inr u \<Rightarrow>
                 if scheme u \<noteq> scheme b \<or> scheme u \<notin> set uses_relative then Inr url
                 else if scheme u \<in> set uses_netloc \<and> netloc u \<noteq> [] then Inr (py_urlunparse u)
                 else
                   let nl = (if scheme u \<in> set uses_netloc then netloc b else netloc u) in
                   if path u = [] \<and> params u = [] then
                     Inr (py_urlunparse (u\<lparr>netloc := nl, path := path b, params := params b,
                            query := (if query u = [] then query b else query u)\<rparr>))
                   else
                     let base_parts0 = split_slash (path b);
                         base_parts = (if last base_parts0 \<noteq> [] then butlast base_parts0
                                       else base_parts0);
                         segments = (if take 1 (path u) = ''/'' then split_slash (path u)
                                     else filter_middle (base_parts @ split_slash (path u)));
                         resolved0 = resolve_segments [] segments;
                         resolved_path = (if last segments = ''.'' \<or> last segments = ''..''
                                          then resolved0 @ [[]] else resolved0);
                         joined = join_slash resolved_path
                     in Inr (py_urlunparse (u\<lparr>netloc := nl,
                               path := (if joined = [] then ''/'' else joined)\<rparr>)))))"

definition py :: "validators \<Rightarrow> urllib" where
  "py V = \<lparr>urlparse = (\<lambda>url. py_urlparse V url []), urljoin = py_urljoin V\<rparr>"

definition no_checks :: validators where
  "no_checks = \<lparr>bracketed_host_error = (\<lambda>h. None), nfkc_error = (\<lambda>n. None)\<rparr>"




subsection \<open>A small site\<close>

text \<open>
  The site of the specification's scenario, used for the concrete runs: the seed page
  links to \<open>/docs/a\<close> (twice), \<open>/other\<close>, \<open>/docs/b\<close> (with a query and a fragment) and a
  \<open>mailto:\<close> address; \<open>/docs/a\<close> fails to load; \<open>/docs/b\<close> links back to the seed and to
  \<open>c\<close>; \<open>/docs/c\<close> links to \<open>d\<close>, then has a link that \<open>urljoin\<close> rejects; the fetch of
  \<open>/docs/d\<close> raises.  Every write succeeds.
\<close>

definition anchor :: "string \<Rightarrow> string" where
  "anchor l = ''<a href='' @ [dquote] @ l @ [dquote] @ ''>''"

definition docs_html :: string where
  "docs_html = anchor ''/docs/a'' @ anchor ''/other'' @ anchor ''https://ex.com/docs/b?x=1#frag''
     @ anchor ''mailto:x@y.com'' @ anchor ''/docs/a''"

definition b_html :: string where
  "b_html = anchor ''/docs'' @ anchor ''c''"

definition c_html :: string where
  "c_html = anchor ''d'' @ anchor ''http://['' @ anchor ''e''"

definition page :: "string \<Rightarrow> crawl_result" where
  "page h = \<lparr>success = True, html = h, error_message = []\<rparr>"

definition failure :: "string \<Rightarrow> crawl_result" where
  "failure m = \<lparr>success = False, html = [], error_message = m\<rparr>"

definition site_arun :: "unit \<Rightarrow> string \<Rightarrow> arun_outcome \<times> unit" where
  "site_arun w url =
     (if url = ''https://ex.com/docs'' then (Returns (page docs_html), w)
      else if url = ''https://ex.com/docs/b'' then (Returns (page b_html), w)
      else if url = ''https://ex.com/docs/c'' then (Returns (page c_html), w)
      else if url = ''https://ex.com/docs/d'' then (Raises ''connection reset'', w)
      else (Returns (failure ''timeout''), w))"

definition site :: "unit env" where
  "site = \<lparr>arun = site_arun, append_page = (\<lambda>w d. (Written, w)),
            truncate_file = (\<lambda>w. (None, w))\<rparr>"

text \<open>The same site on a full disk: no byte of a page reaches the file.\<close>

definition full_disk :: "unit env" where
  "full_disk = site\<lparr>append_page := (\<lambda>w d. (WriteFails 0 ''No space left on device'', w))\<rparr>"

abbreviation (input) L0 :: urllib where "L0 \<equiv> py no_checks"

abbreviation (input) docs :: string where "docs \<equiv> ''https://ex.com/docs''"

text \<open>The states of the crawl of the site from \<open>https://ex.com/docs\<close>, one per iteration.\<close>

definition run1 :: "unit crawl_state" where
  "run1 = \<lparr>seen = {docs},
      to_visit = [''https://ex.com/docs/a'', ''https://ex.com/docs/b'', ''https://ex.com/docs/a''],
      world = (),
      trace = [Truncate, Fetch docs (Returns (page docs_html)),
               Print (OK docs (length docs_html)), Append (header docs @ docs_html)]\<rparr>"

definition run2 :: "unit crawl_state" where
  "run2 = run1\<lparr>seen := {''https://ex.com/docs/a'', docs},
      to_visit := [''https://ex.com/docs/b'', ''https://ex.com/docs/a''],
      trace := trace run1 @ [Fetch ''https://ex.com/docs/a'' (Returns (failure ''timeout'')),
                 Print (SKIP ''https://ex.com/docs/a'' ''timeout'')]\<rparr>"

definition run3 :: "unit crawl_state" where
  "run3 = run2\<lparr>seen := {''https://ex.com/docs/b'', ''https://ex.com/docs/a'', docs},
      to_visit := [''https://ex.com/docs/a'', ''https://ex.com/docs/c''],
      trace := trace run2 @ [Fetch ''https://ex.com/docs/b'' (Returns (page b_html)),
                 Print (OK ''https://ex.com/docs/b'' (length b_html)),
                 Append (header ''https://ex.com/docs/b'' @ b_html)]\<rparr>"

definition run4 :: "unit crawl_state" where
  "run4 = run3\<lparr>to_visit := [''https://ex.com/docs/c'']\<rparr>"

definition run5 :: "unit crawl_state" where
  "run5 = run4\<lparr>seen := {''https://ex.com/docs/c'', ''https://ex.com/docs/b'',
                         ''https://ex.com/docs/a'', docs},
      to_visit := [''https://ex.com/docs/d''],
      trace := trace run4 @ [Fetch ''https://ex.com/docs/c'' (Returns (page c_html)),
                 Print (OK ''https://ex.com/docs/c'' (length c_html)),
                 Append (header ''https://ex.com/docs/c'' @ c_html),
                 Print (ERROR ''https://ex.com/docs/c'' ''Invalid IPv6 URL'')]\<rparr>"

text \<open>The URLs of the site.\<close>

definition site_urls :: "string set" where
  "site_urls = {docs, ''https://ex.com/docs/a'', ''https://ex.com/docs/b'',
     ''https://ex.com/docs/c'', ''https://ex.com/docs/d'', ''https://ex.com/docs/e''}"

section \<open>Properties\<close>

subsection \<open>One iteration\<close>

lemma fetched_append: "fetched (xs @ ys) = fetched xs @ fetched ys"
  by (induction xs rule: fetched.induct) simp_all


lemma try_body_cases:
  obtains
    (raises) e w where "arun E (world s) url = (Raises e, w)"
      "try_body L E start_url url s =
         (Some e, s\<lparr>world := w, trace := trace s @ [Fetch url (Raises e)]\<rparr>)"
  | (failed) res w where "arun E (world s) url = (Returns res, w)" "\<not> success res"
      "try_body L E start_url url s =
         (None, s\<lparr>world := w,
             trace := trace s @ [Fetch url (Returns res), Print (SKIP url (error_message res))]\<rparr>)"
  | (write_fails) res w k e w' where "arun E (world s) url = (Returns res, w)" "success res"
      "append_page E w (header url @ html res) = (WriteFails k e, w')"
      "try_body L E start_url url s =
         (Some e, s\<lparr>world := w',
             trace := trace s @ [Fetch url (Returns res), Print (OK url (length (html res))),
                                Append (take k (header url @ html res))]\<rparr>)"
  | (written) res w w' r q where "arun E (world s) url = (Returns res, w)" "success res"
      "append_page E w (header url @ html res) = (Written, w')"
      "enqueue_links L start_url url (seen s) (findall_href (html res)) (to_visit s) = (r, q)"
      "try_body L E start_url url s =
         (r, s\<lparr>world := w', to_visit := q,
             trace := trace s @ [Fetch url (Returns res), Print (OK url (length (html res))),
                                Append (header url @ html res)]\<rparr>)"
proof (cases "arun E (world s) url")
  case (Pair out w)
  show ?thesis
  proof (cases out)
    case (Raises e)
    with Pair show ?thesis by (intro raises [of e w]) (simp_all add: try_body_def)
  next
    case (Returns res)
    show ?thesis
    proof (cases "success res")
      case False
      with Pair Returns show ?thesis
        by (intro failed [of res w]) (simp_all add: try_body_def)
    next
      case True
      obtain wo w' where ap: "append_page E w (header url @ html res) = (wo, w')"
        by (cases "append_page E w (header url @ html res)")
      show ?thesis
      proof (cases wo)
        case Written
        obtain r q where
          en: "enqueue_links L start_url url (seen s) (findall_href (html res)) (to_visit s) = (r, q)"
          by (cases "enqueue_links L start_url url (seen s) (findall_href (html res)) (to_visit s)")
        with Pair Returns True ap Written show ?thesis
          by (intro written [of res w w' r q]) (simp_all add: try_body_def Let_def)
      next
        case (WriteFails k e)
        with Pair Returns True ap show ?thesis
          by (intro write_fails [of res w k e w']) (simp_all add: try_body_def Let_def)
      qed
    qed
  qed
qed

lemma enqueue_links_new:
  "enqueue_links L start_url url sn links q = (r, q') \<Longrightarrow>
     \<exists>new. q' = q @ new \<and> set new \<inter> sn = {}
        \<and> (\<forall>a \<in> set new. same_topic L start_url a = Inr True
              \<and> (\<exists>raw \<in> set links. normalize_link L url raw = Inr a))"
proof (induction links arbitrary: q)
  case Nil
  then show ?case by simp
next
  case (Cons raw links)
  show ?case
  proof (cases "normalize_link L url raw")
    case (Inl e)
    with Cons.prems show ?thesis by simp
  next
    case (Inr a)
    show ?thesis
    proof (cases "a \<in> sn")
      case True
      with Inr Cons.prems have "enqueue_links L start_url url sn links q = (r, q')" by simp
      from Cons.IH [OF this] show ?thesis by auto
    next
      case False
      show ?thesis
      proof (cases "same_topic L start_url a")
        case (Inl e)
        with False Inr Cons.prems show ?thesis by simp
      next
        case ok: (Inr ok)
        with False Inr Cons.prems
        have "enqueue_links L start_url url sn links (if ok then q @ [a] else q) = (r, q')"
          by simp
        from Cons.IH [OF this] obtain new where
          n: "q' = (if ok then q @ [a] else q) @ new" "set new \<inter> sn = {}"
             "\<forall>b \<in> set new. same_topic L start_url b = Inr True
                  \<and> (\<exists>raw \<in> set links. normalize_link L url raw = Inr b)"
          by blast
        show ?thesis
        proof (cases ok)
          case True
          with n False ok Inr show ?thesis
            by (intro exI [of _ "a # new"]) auto
        next
          case f: False
          with n show ?thesis by (intro exI [of _ new]) auto
        qed
      qed
    qed
  qed
qed

lemma in_resolved_links:
  "raw \<in> set links \<Longrightarrow> normalize_link L url raw = Inr a \<Longrightarrow> a \<in> set (resolved_links L url links)"
  by (induction links) (auto split: sum.splits)

lemma in_page_links:
  "arun E w url = (Returns res, w') \<Longrightarrow> success res \<Longrightarrow> raw \<in> set (findall_href (html res))
     \<Longrightarrow> normalize_link L url raw = Inr a \<Longrightarrow> a \<in> set (page_links L E w url)"
  by (simp add: page_links_def in_resolved_links)

text \<open>What one iteration does to the sets and the trace, whatever happens in the \<open>try\<close>.\<close>

lemma try_body_effect:
  "\<exists>r s' new evs. try_body L E start_url url s = (r, s')
      \<and> seen s' = seen s
      \<and> to_visit s' = to_visit s @ new \<and> set new \<inter> seen s = {}
      \<and> (\<forall>a \<in> set new. same_topic L start_url a = Inr True
             \<and> a \<in> set (page_links L E (world s) url))
      \<and> trace s' = trace s @ Fetch url (fst (arun E (world s) url)) # evs
      \<and> fetched evs = [] \<and> Truncate \<notin> set evs"
proof (cases rule: try_body_cases [of E s url L start_url])
  case (raises e w)
  then show ?thesis by simp
next
  case (failed res w)
  then show ?thesis by simp
next
  case (write_fails res w k e w')
  then show ?thesis by simp
next
  case (written res w w' r q)
  from enqueue_links_new [OF written(4)] obtain new where
    n: "q = to_visit s @ new" "set new \<inter> seen s = {}"
    "\<forall>a \<in> set new. same_topic L start_url a = Inr True
        \<and> (\<exists>raw \<in> set (findall_href (html res)). normalize_link L url raw = Inr a)"
    by blast
  from n(3) written(1,2) have
    "\<forall>a \<in> set new. same_topic L start_url a = Inr True \<and> a \<in> set (page_links L E (world s) url)"
    by (auto intro: in_page_links)
  with written(1,5) n(1,2) show ?thesis by simp
qed

lemma step_seen_head:
  "to_visit s = url # rest \<Longrightarrow> url \<in> seen s \<Longrightarrow> step L E start_url s = s\<lparr>to_visit := rest\<rparr>"
  by (simp add: step_def)

lemma step_effect:
  assumes q: "to_visit s = url # rest" and new: "url \<notin> seen s"
  shows "\<exists>new evs.
      seen (step L E start_url s) = insert url (seen s)
      \<and> to_visit (step L E start_url s) = rest @ new \<and> set new \<inter> insert url (seen s) = {}
      \<and> (\<forall>a \<in> set new. same_topic L start_url a = Inr True
             \<and> a \<in> set (page_links L E (world s) url))
      \<and> trace (step L E start_url s) = trace s @ Fetch url (fst (arun E (world s) url)) # evs
      \<and> fetched evs = [] \<and> Truncate \<notin> set evs"
proof -
  let ?s1 = "s\<lparr>to_visit := rest, seen := insert url (seen s)\<rparr>"
  from try_body_effect [of L E start_url url ?s1] obtain r s' new evs where
    t: "try_body L E start_url url ?s1 = (r, s')" "seen s' = insert url (seen s)"
       "to_visit s' = rest @ new" "set new \<inter> insert url (seen s) = {}"
       "\<forall>a \<in> set new. same_topic L start_url a = Inr True
            \<and> a \<in> set (page_links L E (world s) url)"
       "trace s' = trace s @ Fetch url (fst (arun E (world s) url)) # evs"
       "fetched evs = []" "Truncate \<notin> set evs"
    by auto
  show ?thesis
  proof (cases r)
    case None
    with q new t have "step L E start_url s = s'" by (simp add: step_def)
    with t show ?thesis by auto
  next
    case (Some e)
    with q new t have "step L E start_url s = s'\<lparr>trace := trace s' @ [Print (ERROR url e)]\<rparr>"
      by (simp add: step_def)
    with t show ?thesis
      by (intro exI [of _ new] exI [of _ "evs @ [Print (ERROR url e)]"])
         (simp add: fetched_append)
  qed
qed

lemma step_empty: "to_visit s = [] \<Longrightarrow> step L E start_url s = s"
  by (simp add: step_def)

lemma after_Suc: "after L E start_url w (Suc n) = step L E start_url (after L E start_url w n)"
  by (simp add: after_def)

lemma after_0: "after L E start_url w 0 = initial start_url w"
  by (simp add: after_def)

subsection \<open>The loop\<close>

lemma step_funpow_empty: "to_visit s = [] \<Longrightarrow> (step L E start_url ^^ n) s = s"
  by (induction n) (simp_all add: step_empty)

lemma crawl_loop_funpow:
  "to_visit ((step L E start_url ^^ n) s) = [] \<Longrightarrow>
     crawl_loop L E start_url s = Some ((step L E start_url ^^ n) s)"
proof (induction n arbitrary: s)
  case 0
  then show ?case by (simp add: crawl_loop.simps)
next
  case (Suc n)
  show ?case
  proof (cases "to_visit s = []")
    case True
    then show ?thesis by (simp add: crawl_loop.simps step_funpow_empty del: funpow.simps)
  next
    case False
    from Suc.prems have "to_visit ((step L E start_url ^^ n) (step L E start_url s)) = []"
      by (simp add: funpow_swap1)
    from Suc.IH [OF this] False show ?thesis
      by (subst crawl_loop.simps) (simp add: funpow_swap1)
  qed
qed

lemma crawl_loop_reaches:
  assumes "crawl_loop L E start_url s = Some s'"
  shows "\<exists>n. s' = (step L E start_url ^^ n) s \<and> to_visit s' = []"
  using assms
proof (induction rule: crawl_loop.raw_induct [rotated 1, consumes 1])
  case (1 loop L E start_url s s')
  show ?case
  proof (cases "to_visit s = []")
    case True
    with 1(2) show ?thesis by (intro exI [of _ 0]) simp
  next
    case False
    with 1(2) have "loop L E start_url (step L E start_url s) = Some s'" by simp
    from 1(1) [OF this] obtain n where
      "s' = (step L E start_url ^^ n) (step L E start_url s)" "to_visit s' = []" by blast
    then show ?thesis by (intro exI [of _ "Suc n"]) (simp add: funpow_swap1)
  qed
qed

text \<open>A run that returns has gone through finitely many iterations.\<close>

lemma crawl_single_site_reaches:
  assumes "crawl_single_site L E start_url w = Some (Inr s')"
  shows "\<exists>n w'. truncate_file E w = (None, w') \<and> s' = after L E start_url w' n
           \<and> to_visit s' = []"
proof -
  obtain r w' where t: "truncate_file E w = (r, w')" by (cases "truncate_file E w")
  with assms have r: "r = None" by (cases r) (simp_all add: crawl_single_site_def)
  with assms t have "crawl_loop L E start_url (initial start_url w') = Some s'"
    by (auto simp: crawl_single_site_def)
  from crawl_loop_reaches [OF this] t r show ?thesis by (auto simp: after_def)
qed



text \<open>Termination: the queue stays inside a finite set that is closed under in-scope links.\<close>

lemma loop_empties:
  assumes fin: "finite U" and cl: "link_closed L E start_url U"
  shows "set (to_visit s) \<subseteq> U \<Longrightarrow> \<exists>n. to_visit ((step L E start_url ^^ n) s) = []"
proof (induction "(card (U - seen s), length (to_visit s))" arbitrary: s
        rule: wf_induct_rule [OF wf_lex_prod [OF wf_less_than wf_less_than]])
  case less: 1
  show ?case
  proof (cases "to_visit s")
    case Nil
    then show ?thesis by (intro exI [of _ 0]) simp
  next
    case (Cons url rest)
    let ?t = "step L E start_url s"
    have "set (to_visit ?t) \<subseteq> U
        \<and> ((card (U - seen ?t), length (to_visit ?t)), (card (U - seen s), length (to_visit s)))
            \<in> less_than <*lex*> less_than"
    proof (cases "url \<in> seen s")
      case True
      with Cons less.prems show ?thesis by (auto simp: step_seen_head)
    next
      case False
      from step_effect [OF Cons False, of L E start_url] obtain new where
        e: "seen ?t = insert url (seen s)" "to_visit ?t = rest @ new"
           "\<forall>a \<in> set new. same_topic L start_url a = Inr True
              \<and> a \<in> set (page_links L E (world s) url)"
        by blast
      from Cons less.prems have u: "url \<in> U" by simp
      with cl e(3) have "set new \<subseteq> U" by (auto simp: link_closed_def)
      moreover from u False have "U - insert url (seen s) \<subset> U - seen s" by blast
      then have "card (U - insert url (seen s)) < card (U - seen s)"
        using fin by (intro psubset_card_mono) simp_all
      ultimately show ?thesis using e(1,2) Cons less.prems by auto
    qed
    then obtain n where "to_visit ((step L E start_url ^^ n) ?t) = []"
      using less.hyps [of ?t] by blast
    then show ?thesis by (intro exI [of _ "Suc n"]) (simp add: funpow_swap1)
  qed
qed

subsection \<open>Scope\<close>

lemma scope_inv_step:
  assumes "scope_inv L start_url s" shows "scope_inv L start_url (step L E start_url s)"
proof (cases "to_visit s")
  case Nil
  with assms show ?thesis by (simp add: step_empty)
next
  case (Cons url rest)
  show ?thesis
  proof (cases "url \<in> seen s")
    case True
    with Cons assms show ?thesis by (auto simp: step_seen_head scope_inv_def)
  next
    case False
    from step_effect [OF Cons False, of L E start_url] obtain new evs where
      e: "to_visit (step L E start_url s) = rest @ new"
         "\<forall>a \<in> set new. same_topic L start_url a = Inr True
             \<and> a \<in> set (page_links L E (world s) url)"
         "trace (step L E start_url s) = trace s @ Fetch url (fst (arun E (world s) url)) # evs"
         "fetched evs = []"
      by blast
    with assms Cons show ?thesis
      by (auto simp: scope_inv_def fetched_append)
  qed
qed

lemma scope_inv_after: "scope_inv L start_url (after L E start_url w n)"
proof (induction n)
  case 0
  show ?case by (simp add: after_0 initial_def scope_inv_def)
next
  case (Suc n)
  then show ?case by (simp add: after_Suc scope_inv_step)
qed

lemma same_topic_self:
  assumes "urlparse L start_url = Inr p" and "scheme p = ''http'' \<or> scheme p = ''https''"
  shows "same_topic L start_url start_url = Inr True"
  using assms by (auto simp: same_topic_def startswith_def)

subsection \<open>The output file\<close>




lemma file_after_Truncate:
  "file_after f (Truncate # tr) = file_after [] (Truncate # tr)"
  by simp


subsection \<open>The links of a page\<close>

lemma enqueue_links_Cons_ok:
  "link_raises L start_url url sn raw = None \<Longrightarrow>
   enqueue_links L start_url url sn (raw # links) q =
     enqueue_links L start_url url sn links
       (q @ filter (wanted L start_url sn) (resolved_links L url [raw]))"
  by (auto simp: link_raises_def wanted_def split: sum.splits if_splits)

lemma enqueue_links_Cons_raise:
  "link_raises L start_url url sn raw = Some e \<Longrightarrow>
   enqueue_links L start_url url sn (raw # links) q = (Some e, q)"
  by (auto simp: link_raises_def split: sum.splits if_splits)

lemma resolved_links_append:
  "resolved_links L url (xs @ ys) = resolved_links L url xs @ resolved_links L url ys"
  by (induction xs) (auto split: sum.splits)

lemma raise_not_wanted:
  "link_raises L start_url url sn raw = Some e \<Longrightarrow>
     filter (wanted L start_url sn) (resolved_links L url [raw]) = []"
  by (auto simp: link_raises_def wanted_def split: sum.splits if_splits)

text \<open>The loop over the links of a page that all go through.\<close>

lemma enqueue_links_all_ok:
  "\<forall>raw \<in> set links. link_raises L start_url url sn raw = None \<Longrightarrow>
   enqueue_links L start_url url sn links q =
     (None, q @ filter (wanted L start_url sn) (resolved_links L url links))"
proof (induction links arbitrary: q)
  case Nil
  show ?case by simp
next
  case (Cons raw links)
  from Cons.prems have r: "link_raises L start_url url sn raw = None" by simp
  from Cons.prems have "\<forall>raw \<in> set links. link_raises L start_url url sn raw = None" by simp
  from Cons.IH [OF this] show ?case
    unfolding enqueue_links_Cons_ok [OF r]
    using resolved_links_append [of L url "[raw]" links] by simp
qed


text \<open>In general the new entries are a prefix of the wanted links.\<close>

lemma enqueue_links_prefix:
  "enqueue_links L start_url url sn links q = (r, q') \<Longrightarrow>
     \<exists>new. q' = q @ new
        \<and> prefix new (filter (wanted L start_url sn) (resolved_links L url links))"
proof (induction links arbitrary: q)
  case Nil
  then show ?case by simp
next
  case (Cons raw links)
  show ?case
  proof (cases "link_raises L start_url url sn raw")
    case None
    let ?f = "filter (wanted L start_url sn) (resolved_links L url [raw])"
    from Cons.prems have "enqueue_links L start_url url sn links (q @ ?f) = (r, q')"
      by (simp only: enqueue_links_Cons_ok [OF None])
    from Cons.IH [OF this] obtain new where
      "q' = (q @ ?f) @ new"
      "prefix new (filter (wanted L start_url sn) (resolved_links L url links))"
      by blast
    then show ?thesis
      using resolved_links_append [of L url "[raw]" links]
      by (intro exI [of _ "?f @ new"]) simp
  next
    case (Some e)
    with Cons.prems have "q' = q" by (simp add: enqueue_links_Cons_raise del: enqueue_links.simps)
    then show ?thesis by (intro exI [of _ "[]"]) simp
  qed
qed

lemma step_written:
  assumes "to_visit s = url # rest" and "url \<notin> seen s"
    and "arun E (world s) url = (Returns res, w1)" and "success res"
    and "append_page E w1 (header url @ html res) = (Written, w2)"
    and "enqueue_links L start_url url (insert url (seen s)) (findall_href (html res)) rest = (r, q)"
  shows "step L E start_url s =
     s\<lparr>seen := insert url (seen s), to_visit := q, world := w2,
       trace := trace s @ [Fetch url (Returns res), Print (OK url (length (html res))),
                          Append (header url @ html res)]
                 @ (case r of None \<Rightarrow> [] | Some e \<Rightarrow> [Print (ERROR url e)])\<rparr>"
  using assms by (cases r) (simp_all add: step_def try_body_def Let_def)

subsection \<open>Strings\<close>






subsection \<open>Plain URLs in Python's \<open>urllib.parse\<close>\<close>










subsection \<open>The crawl of the small site\<close>

lemma site_links_docs: "findall_href docs_html = [''/docs/a'', ''/other'', ''https://ex.com/docs/b?x=1#frag'', ''mailto:x@y.com'', ''/docs/a'']"
  by code_simp
lemma site_links_b: "findall_href b_html = [''/docs'', ''c'']"
  by code_simp
lemma site_links_c: "findall_href c_html = [''d'', ''http://['', ''e'']"
  by code_simp

lemma site_norm1: "normalize_link L0 ''https://ex.com/docs'' ''/docs/a'' = Inr ''https://ex.com/docs/a''"
  by code_simp
lemma site_norm2: "normalize_link L0 ''https://ex.com/docs'' ''/other'' = Inr ''https://ex.com/other''"
  by code_simp
lemma site_norm3: "normalize_link L0 ''https://ex.com/docs'' ''https://ex.com/docs/b?x=1#frag'' = Inr ''https://ex.com/docs/b''"
  by code_simp
lemma site_norm4: "normalize_link L0 ''https://ex.com/docs'' ''mailto:x@y.com'' = Inr ''mailto:x@y.com''"
  by code_simp
lemma site_norm5: "normalize_link L0 ''https://ex.com/docs/b'' ''/docs'' = Inr ''https://ex.com/docs''"
  by code_simp
lemma site_norm6: "normalize_link L0 ''https://ex.com/docs/b'' ''c'' = Inr ''https://ex.com/docs/c''"
  by code_simp
lemma site_norm7: "normalize_link L0 ''https://ex.com/docs/c'' ''d'' = Inr ''https://ex.com/docs/d''"
  by code_simp
lemma site_norm8: "normalize_link L0 ''https://ex.com/docs/c'' ''http://['' = Inl ''Invalid IPv6 URL''"
  by code_simp
lemma site_scope1: "same_topic L0 ''https://ex.com/docs'' ''https://ex.com/docs/a'' = Inr True"
  by code_simp
lemma site_scope2: "same_topic L0 ''https://ex.com/docs'' ''https://ex.com/other'' = Inr False"
  by code_simp
lemma site_scope3: "same_topic L0 ''https://ex.com/docs'' ''https://ex.com/docs/b'' = Inr True"
  by code_simp
lemma site_scope4: "same_topic L0 ''https://ex.com/docs'' ''mailto:x@y.com'' = Inr False"
  by code_simp
lemma site_scope5: "same_topic L0 ''https://ex.com/docs'' ''https://ex.com/docs/c'' = Inr True"
  by code_simp
lemma site_scope6: "same_topic L0 ''https://ex.com/docs'' ''https://ex.com/docs/d'' = Inr True"
  by code_simp

lemma site_norm9: "normalize_link L0 ''https://ex.com/docs/c'' ''e'' = Inr ''https://ex.com/docs/e''"
  by code_simp
lemma site_scope7: "same_topic L0 docs ''https://ex.com/docs/e'' = Inr True"
  by code_simp

lemmas site_eval = step_def try_body_def Let_def site_def full_disk_def site_arun_def page_def failure_def
  site_links_docs site_links_b site_links_c site_norm1 site_norm2 site_norm3 site_norm4 site_norm5 site_norm6 site_norm7 site_norm8 site_norm9 site_scope1 site_scope2 site_scope3 site_scope4 site_scope5 site_scope6 site_scope7

lemma site_step1: "step L0 site docs (initial docs ()) = run1"
  by (simp add: site_eval initial_def run1_def)

lemma site_step2: "step L0 site docs run1 = run2"
  by (simp add: site_eval run1_def run2_def)

lemma site_step3: "step L0 site docs run2 = run3"
  by (simp add: site_eval run1_def run2_def run3_def)

lemma site_step4: "step L0 site docs run3 = run4"
  by (simp add: site_eval run1_def run2_def run3_def run4_def)

lemma site_step5: "step L0 site docs run4 = run5"
  by (simp add: site_eval run1_def run2_def run3_def run4_def run5_def)

lemma after_Suc0: "after L E start_url w (Suc 0) = step L E start_url (initial start_url w)"
  by (simp add: after_def)

lemma after_numeral:
  "after L E start_url w (numeral k) = step L E start_url (after L E start_url w (pred_numeral k))"
  by (simp add: after_def numeral_eq_Suc)

lemma site_after:
  "after L0 site docs () (Suc 0) = run1"
  "after L0 site docs () 2 = run2"
  "after L0 site docs () 3 = run3"
  "after L0 site docs () 4 = run4"
  "after L0 site docs () 5 = run5"
  by (simp_all add: after_Suc0 after_numeral site_step1 site_step2 site_step3 site_step4 site_step5)

lemma site_parse_docs:
  "urlparse L0 docs = Inr \<lparr>scheme = ''https'', netloc = ''ex.com'', path = ''/docs'',
      params = [], query = [], fragment = []\<rparr>"
  by code_simp

lemma site_link_closed: "link_closed L0 site docs site_urls"
  unfolding link_closed_def site_urls_def
  by (simp add: page_links_def site_def site_arun_def page_def failure_def
        site_links_docs site_links_b site_links_c
        site_norm1 site_norm2 site_norm3 site_norm4 site_norm5 site_norm6 site_norm7
        site_norm8 site_norm9 site_scope1 site_scope2 site_scope3 site_scope4 site_scope5
        site_scope6 site_scope7)

subsection \<open>The claims\<close>


text \<open>
  C2 (scope closure), as amended.  After any number of iterations, every URL in the queue
  and every URL that was passed to the fetcher is the seed itself or satisfies
  \<open>same_topic(start_url, url)\<close>: link discovery only appends in-scope URLs.  The seed
  is put in the queue and fetched without a scope test, so the whole queue and every
  fetched URL are in scope when the seed parses with scheme \<open>http\<close> or \<open>https\<close>, which
  makes it in scope of itself.
\<close>

theorem scope_closure:
  "(\<forall>u \<in> set (to_visit (after L E start_url w n)) \<union> set (fetched (trace (after L E start_url w n))).
       u = start_url \<or> same_topic L start_url u = Inr True)
   \<and> (\<forall>p. urlparse L start_url = Inr p \<and> (scheme p = ''http'' \<or> scheme p = ''https'')
          \<longrightarrow> (\<forall>u \<in> set (to_visit (after L E start_url w n))
                        \<union> set (fetched (trace (after L E start_url w n))).
                 same_topic L start_url u = Inr True))"
proof -
  have a: "\<forall>u \<in> set (to_visit (after L E start_url w n))
                 \<union> set (fetched (trace (after L E start_url w n))).
             u = start_url \<or> same_topic L start_url u = Inr True"
    using scope_inv_after [of L start_url E w n] by (simp add: scope_inv_def)
  then show ?thesis by (auto dest: same_topic_self)
qed

text \<open>On the small site: the seed is an \<open>https\<close> URL, and after one iteration the queue and
  the fetched URLs are in scope.\<close>

theorem scope_closure_witness:
  "urlparse L0 docs = Inr \<lparr>scheme = ''https'', netloc = ''ex.com'', path = ''/docs'',
      params = [], query = [], fragment = []\<rparr>
   \<and> to_visit (after L0 site docs () 1) =
        [''https://ex.com/docs/a'', ''https://ex.com/docs/b'', ''https://ex.com/docs/a'']
   \<and> fetched (trace (after L0 site docs () 1)) = [docs]
   \<and> same_topic L0 docs ''https://ex.com/docs/a'' = Inr True
   \<and> same_topic L0 docs ''https://ex.com/docs/b'' = Inr True
   \<and> same_topic L0 docs docs = Inr True"
proof -
  let ?p = "\<lparr>scheme = ''https'', netloc = ''ex.com'', path = ''/docs'',
      params = [], query = [], fragment = []\<rparr>"
  have q: "to_visit (after L0 site docs () 1) =
        [''https://ex.com/docs/a'', ''https://ex.com/docs/b'', ''https://ex.com/docs/a'']"
    and f: "fetched (trace (after L0 site docs () 1)) = [docs]"
    by (simp_all add: site_after run1_def)
  from scope_closure [of L0 site docs "()" 1] site_parse_docs
  have "\<forall>u \<in> set (to_visit (after L0 site docs () 1))
                \<union> set (fetched (trace (after L0 site docs () 1))).
          same_topic L0 docs u = Inr True"
    by simp
  with q f site_parse_docs show ?thesis by simp
qed

text \<open>
  The claim as stated fails for a seed without a scheme: \<open>example.com\<close> is the initial
  queue entry and is passed to the fetcher, and it is not in scope of itself.
\<close>

theorem scope_closure_counterexample:
  "to_visit (initial ''example.com'' ()) = [''example.com'']
   \<and> same_topic L0 ''example.com'' ''example.com'' = Inr False
   \<and> fetched (trace (after L0 site ''example.com'' () 1)) = [''example.com'']"
proof -
  have "same_topic L0 ''example.com'' ''example.com'' = Inr False" by code_simp
  moreover have "fetched (trace (after L0 site ''example.com'' () 1)) = [''example.com'']"
    by (simp add: after_Suc0 site_eval initial_def)
  ultimately show ?thesis by (simp add: initial_def)
qed




text \<open>
  C4 (termination).  Given a finite link graph, that is a finite set of URLs that contains
  the seed and that no in-scope link of a page of the set leaves, the loop ends: after some
  number \<open>n\<close> of iterations the queue is empty and \<open>crawl_loop\<close> returns the state reached
  then.  This holds whatever the fetcher returns or raises and whether writes succeed.
\<close>

theorem crawl_terminates:
  assumes "finite U" and "start_url \<in> U" and "link_closed L E start_url U"
  shows "\<exists>n. crawl_loop L E start_url (initial start_url w) = Some (after L E start_url w n)
           \<and> to_visit (after L E start_url w n) = []"
proof -
  from assms(2) have "set (to_visit (initial start_url w)) \<subseteq> U" by (simp add: initial_def)
  from loop_empties [OF assms(1,3) this] obtain n where
    n: "to_visit ((step L E start_url ^^ n) (initial start_url w)) = []" by blast
  from crawl_loop_funpow [OF n] n show ?thesis by (auto simp: after_def)
qed

text \<open>The small site is such a graph.\<close>

theorem crawl_terminates_witness:
  "finite site_urls \<and> docs \<in> site_urls \<and> link_closed L0 site docs site_urls
   \<and> (\<exists>n. crawl_loop L0 site docs (initial docs ()) = Some (after L0 site docs () n)
          \<and> to_visit (after L0 site docs () n) = [])"
proof -
  have f: "finite site_urls" and d: "docs \<in> site_urls" by (simp_all add: site_urls_def)
  from crawl_terminates [OF f d site_link_closed, of "()"] f d site_link_closed
  show ?thesis by blast
qed






text \<open>
  C7 (two reference URLs).  When an iteration fetches the page at \<open>url\<close> with success and
  writes it, what it appends to the queue is a prefix of this list: the links of the page,
  each normalised against \<open>url\<close>, the page's own URL, of which those are kept that are
  not seen and for which \<open>same_topic\<close> with the seed \<open>start_url\<close> is true.  It is the
  whole list when no link raises.
\<close>

theorem page_base_seed_scope:
  assumes "to_visit s = url # rest" and "url \<notin> seen s"
    and "arun E (world s) url = (Returns res, w1)" and "success res"
    and "append_page E w1 (header url @ html res) = (Written, w2)"
  shows "(\<exists>new. to_visit (step L E start_url s) = rest @ new
            \<and> prefix new
                 (filter (\<lambda>a. a \<notin> insert url (seen s) \<and> same_topic L start_url a = Inr True)
                    (resolved_links L url (findall_href (html res)))))
       \<and> ((\<forall>raw \<in> set (findall_href (html res)).
              link_raises L start_url url (insert url (seen s)) raw = None)
            \<longrightarrow> to_visit (step L E start_url s) =
                 rest @ filter (\<lambda>a. a \<notin> insert url (seen s) \<and> same_topic L start_url a = Inr True)
                          (resolved_links L url (findall_href (html res))))"
proof -
  let ?sn = "insert url (seen s)" and ?links = "findall_href (html res)"
  have w: "wanted L start_url ?sn = (\<lambda>a. a \<notin> ?sn \<and> same_topic L start_url a = Inr True)"
    by (rule ext) (simp add: wanted_def)
  obtain r q where en: "enqueue_links L start_url url ?sn ?links rest = (r, q)"
    by (cases "enqueue_links L start_url url ?sn ?links rest")
  from step_written [OF assms en] have q: "to_visit (step L E start_url s) = q" by simp
  from enqueue_links_prefix [OF en] q have
    "\<exists>new. to_visit (step L E start_url s) = rest @ new
        \<and> prefix new (filter (wanted L start_url ?sn) (resolved_links L url ?links))"
    by simp
  moreover have "to_visit (step L E start_url s) =
        rest @ filter (wanted L start_url ?sn) (resolved_links L url ?links)"
    if "\<forall>raw \<in> set ?links. link_raises L start_url url ?sn raw = None"
    using enqueue_links_all_ok [OF that, of rest] en q by simp
  ultimately show ?thesis unfolding w by blast
qed

text \<open>
  On the small site, the third iteration: the link \<open>c\<close> on \<open>/docs/b\<close> becomes
  \<open>/docs/c\<close> (against the seed it would be \<open>/c\<close>), and is in scope of the seed.
\<close>

theorem page_base_seed_scope_witness:
  "to_visit run2 = ''https://ex.com/docs/b'' # [''https://ex.com/docs/a'']
   \<and> ''https://ex.com/docs/b'' \<notin> seen run2
   \<and> arun site (world run2) ''https://ex.com/docs/b'' = (Returns (page b_html), ())
   \<and> success (page b_html)
   \<and> append_page site () (header ''https://ex.com/docs/b'' @ html (page b_html)) = (Written, ())
   \<and> findall_href (html (page b_html)) = [''/docs'', ''c'']
   \<and> link_raises L0 docs ''https://ex.com/docs/b''
        (insert ''https://ex.com/docs/b'' (seen run2)) ''/docs'' = None
   \<and> link_raises L0 docs ''https://ex.com/docs/b''
        (insert ''https://ex.com/docs/b'' (seen run2)) ''c'' = None
   \<and> resolved_links L0 ''https://ex.com/docs/b'' [''/docs'', ''c'']
        = [docs, ''https://ex.com/docs/c'']
   \<and> resolved_links L0 docs [''/docs'', ''c''] = [docs, ''https://ex.com/c'']
   \<and> to_visit (step L0 site docs run2) = [''https://ex.com/docs/a'', ''https://ex.com/docs/c'']"
proof -
  let ?b = "''https://ex.com/docs/b''"
  have a: "to_visit run2 = ?b # [''https://ex.com/docs/a'']"
    and b: "?b \<notin> seen run2"
    and c: "arun site (world run2) ?b = (Returns (page b_html), ())"
    and d: "success (page b_html)"
    and e: "append_page site () (header ?b @ html (page b_html)) = (Written, ())"
    and f: "findall_href (html (page b_html)) = [''/docs'', ''c'']"
    by (simp_all add: run1_def run2_def site_def site_arun_def page_def site_links_b)
  have g: "link_raises L0 docs ?b (insert ?b (seen run2)) ''/docs'' = None"
    and h: "link_raises L0 docs ?b (insert ?b (seen run2)) ''c'' = None"
    by (simp_all add: link_raises_def run1_def run2_def site_norm5 site_norm6 site_scope5)
  have i: "resolved_links L0 ?b [''/docs'', ''c''] = [docs, ''https://ex.com/docs/c'']"
    by (simp add: site_norm5 site_norm6)
  have "normalize_link L0 docs ''/docs'' = Inr docs"
    and "normalize_link L0 docs ''c'' = Inr ''https://ex.com/c''"
    by code_simp+
  then have j: "resolved_links L0 docs [''/docs'', ''c''] = [docs, ''https://ex.com/c'']"
    by simp
  from page_base_seed_scope [OF a b c d e, of L0 docs] f g h
  have "to_visit (step L0 site docs run2) =
     [''https://ex.com/docs/a''] @
       filter (\<lambda>a. a \<notin> insert ?b (seen run2) \<and> same_topic L0 docs a = Inr True)
         (resolved_links L0 ?b [''/docs'', ''c''])"
    by simp
  then have "to_visit (step L0 site docs run2) = [''https://ex.com/docs/a'', ''https://ex.com/docs/c'']"
    by (simp add: site_norm5 site_norm6 run1_def run2_def site_scope5)
  with a b c d e f g h i j show ?thesis by (simp only: simp_thms)
qed








end
